theory Spec2Isabelle
  imports Main "HOL-Library.Sublist"
begin

section \<open>Strings\<close>

text \<open>
  A Python \<open>str\<close> is modelled as a \<open>string\<close>: a list of 8-bit characters, read as the
  code points 0..255 (ASCII and Latin-1).  \<open>str.lower()\<close> acts character by character
  on this range: it shifts \<open>A..Z\<close> and the Latin-1 capitals (192..214, 216..222) by 32
  and leaves every other character alone.
\<close>

definition py_lower_char :: "char \<Rightarrow> char" where
  "py_lower_char c =
     (let n = (of_char c :: nat)
      in if (65 \<le> n \<and> n \<le> 90) \<or> (192 \<le> n \<and> n \<le> 214) \<or> (216 \<le> n \<and> n \<le> 222)
         then char_of (n + 32) else c)"

definition str_lower :: "string \<Rightarrow> string" where
  "str_lower s = map py_lower_char s"

text \<open>\<open>needle in haystack\<close> on two strings: containment as a contiguous substring.\<close>

fun str_contains :: "string \<Rightarrow> string \<Rightarrow> bool" where
  "str_contains needle [] = (needle = [])"
| "str_contains needle (c # cs) = (prefix needle (c # cs) \<or> str_contains needle cs)"


section \<open>templates/store.py\<close>

text \<open>
  \<open>re.search(pattern, raw, re.IGNORECASE)\<close> on a pattern written by the user belongs to
  Python's \<open>re\<close> library.  It is a parameter \<open>re_search\<close> of the model: \<open>Inl ReError\<close>
  when compiling the pattern raises \<open>re.error\<close>, otherwise \<open>Inr found\<close> where \<open>found\<close>
  tells whether a match object was returned.
\<close>

datatype re_error = ReError

type_synonym re_lib = "string \<Rightarrow> string \<Rightarrow> re_error + bool"

record InstructionRule =
  instruction :: string
  match_source :: string
  match_pattern :: string
  match_levels :: "string list"

record CustomSource =
  cs_name :: string
  path_glob :: string
  filter_pattern :: string
  default_level :: string

record Template =
  t_name :: string
  description :: string
  instruction_rules :: "InstructionRule list"
  custom_sources :: "CustomSource list"

text \<open>\<open>InstructionRule.matches\<close>: three guarded early returns, then \<open>True\<close>.\<close>

definition matches :: "re_lib \<Rightarrow> InstructionRule \<Rightarrow> string \<Rightarrow> string \<Rightarrow> string \<Rightarrow> bool" where
  "matches re_search rule source raw level =
     (if match_source rule \<noteq> [] \<and>
         \<not> str_contains (str_lower (match_source rule)) (str_lower source)
      then False
      else if match_levels rule \<noteq> [] \<and>
         str_lower level \<notin> set (map str_lower (match_levels rule))
      then False
      else if match_pattern rule \<noteq> []
      then (case re_search (match_pattern rule) raw of
              Inl e \<Rightarrow> False
            | Inr found \<Rightarrow> (if \<not> found then False else True))
      else True)"

text \<open>The \<open>for\<close> loop of \<open>Template.resolve_instruction\<close> over the rules, in list order.\<close>

fun resolve_loop :: "re_lib \<Rightarrow> InstructionRule list \<Rightarrow> string \<Rightarrow> string \<Rightarrow> string \<Rightarrow> string" where
  "resolve_loop re_search [] source raw level = []"
| "resolve_loop re_search (rule # rules) source raw level =
     (if matches re_search rule source raw level then instruction rule
      else resolve_loop re_search rules source raw level)"

definition resolve_instruction :: "re_lib \<Rightarrow> Template \<Rightarrow> string \<Rightarrow> string \<Rightarrow> string \<Rightarrow> string" where
  "resolve_instruction re_search t source raw level =
     resolve_loop re_search (instruction_rules t) source raw level"


section \<open>log\_formatter.py\<close>

text \<open>
  \<open>LogEntry\<close> of collectors/base.py.  The optional timestamp is kept as an optional
  number; the free-form \<open>extra\<close> dictionary is read by none of the functions below and
  is left out.
\<close>

record LogEntry =
  source :: string
  message :: string
  raw :: string
  timestamp :: "int option"
  level :: string

definition INSTRUCTION_MAP :: "string \<rightharpoonup> string" where
  "INSTRUCTION_MAP = map_of
     [(''error'', ''Interpret the error message in the given log.''),
      (''err'', ''Interpret the error message in the given log.''),
      (''crit'', ''Interpret the error message in the given log.''),
      (''alert'', ''Interpret the error message in the given log.''),
      (''emerg'', ''Interpret the error message in the given log.''),
      (''warning'', ''Analyze the potential issue described in this log entry.''),
      (''warn'', ''Analyze the potential issue described in this log entry.'')]"

definition DEFAULT_INSTRUCTION :: string where
  "DEFAULT_INSTRUCTION = ''Parse and summarize the information in this log entry.''"

text \<open>The dictionary returned by \<open>entry_to_loglm\<close>, with its three fixed keys.\<close>

record LogLM =
  Instruction :: string
  Input :: string
  Response :: string

definition entry_to_loglm :: "re_lib \<Rightarrow> LogEntry \<Rightarrow> Template option \<Rightarrow> LogLM" where
  "entry_to_loglm re_search entry template =
     (let instruction0 =
            (case template of
               None \<Rightarrow> []
             | Some t \<Rightarrow> resolve_instruction re_search t (source entry) (raw entry) (level entry));
          instruction1 =
            (if instruction0 = []
             then (case INSTRUCTION_MAP (str_lower (level entry)) of
                     Some v \<Rightarrow> v
                   | None \<Rightarrow> DEFAULT_INSTRUCTION)
             else instruction0)
      in \<lparr>Instruction = instruction1, Input = raw entry, Response = []\<rparr>)"


section \<open>Regular expressions of the collectors\<close>

text \<open>
  The two compiled patterns of the collectors are literal alternations between word
  boundaries.  They are kept as syntax trees and run by a backtracking matcher that
  follows Python's \<open>re\<close>: alternatives are tried left to right, an optional part is
  tried first with its body and then without it (greedy), a word boundary compares
  the word-character status of the characters on both sides of a position, a literal
  matches ignoring case (\<open>re.IGNORECASE\<close>), and \<open>search\<close> tries the start positions
  from left to right.  \<open>is_word_char\<close> is the class of word characters of a \<open>str\<close>
  pattern on the code points 0..255.
\<close>


definition is_word_char :: "char \<Rightarrow> bool" where
  "is_word_char c =
     (let n = (of_char c :: nat)
      in (48 \<le> n \<and> n \<le> 57) \<or> (65 \<le> n \<and> n \<le> 90) \<or> n = 95 \<or> (97 \<le> n \<and> n \<le> 122)
         \<or> n = 170 \<or> n = 178 \<or> n = 179 \<or> n = 181 \<or> n = 185 \<or> n = 186
         \<or> (188 \<le> n \<and> n \<le> 190) \<or> (192 \<le> n \<and> n \<le> 214) \<or> (216 \<le> n \<and> n \<le> 246)
         \<or> 248 \<le> n)"

definition word_boundary :: "string \<Rightarrow> nat \<Rightarrow> bool" where
  "word_boundary s i =
     (let that = (0 < i \<and> i - 1 < length s \<and> is_word_char (s ! (i - 1)));
          this = (i < length s \<and> is_word_char (s ! i))
      in this \<noteq> that)"

fun lit_at :: "string \<Rightarrow> string \<Rightarrow> nat \<Rightarrow> bool" where
  "lit_at [] s i = True"
| "lit_at (p # ps) s i =
     (i < length s \<and> py_lower_char (s ! i) = py_lower_char p \<and> lit_at ps s (Suc i))"

datatype regex =
    Lit string
  | WordB
  | Seq regex regex
  | Alt regex regex
  | Opt regex
  | Group regex

type_synonym span = "nat \<times> nat"
type_synonym cont = "nat \<Rightarrow> span option \<Rightarrow> (nat \<times> span option) option"

primrec rmatch :: "regex \<Rightarrow> string \<Rightarrow> cont \<Rightarrow> nat \<Rightarrow> span option \<Rightarrow> (nat \<times> span option) option" where
  "rmatch (Lit w) s k i g = (if lit_at w s i then k (i + length w) g else None)"
| "rmatch WordB s k i g = (if word_boundary s i then k i g else None)"
| "rmatch (Seq a b) s k i g = rmatch a s (rmatch b s k) i g"
| "rmatch (Alt a b) s k i g =
     (case rmatch a s k i g of Some m \<Rightarrow> Some m | None \<Rightarrow> rmatch b s k i g)"
| "rmatch (Opt a) s k i g =
     (case rmatch a s k i g of Some m \<Rightarrow> Some m | None \<Rightarrow> k i g)"
| "rmatch (Group a) s k i g = rmatch a s (\<lambda>j g'. k j (Some (i, j))) i g"

definition match_at :: "regex \<Rightarrow> string \<Rightarrow> nat \<Rightarrow> (nat \<times> span option) option" where
  "match_at r s i = rmatch r s (\<lambda>j g. Some (j, g)) i None"

fun search_from :: "regex \<Rightarrow> string \<Rightarrow> nat \<Rightarrow> nat \<Rightarrow> (nat \<times> nat \<times> span option) option" where
  "search_from r s 0 i = None"
| "search_from r s (Suc n) i =
     (case match_at r s i of
        Some (j, g) \<Rightarrow> Some (i, j, g)
      | None \<Rightarrow> search_from r s n (Suc i))"

definition regex_search :: "regex \<Rightarrow> string \<Rightarrow> (nat \<times> nat \<times> span option) option" where
  "regex_search r s = search_from r s (Suc (length s)) 0"

definition group1 :: "string \<Rightarrow> nat \<times> nat \<times> span option \<Rightarrow> string option" where
  "group1 s m = (case m of (_, _, None) \<Rightarrow> None
                        | (_, _, Some (b, e)) \<Rightarrow> Some (take (e - b) (drop b s)))"

datatype py_error = AttributeError

text \<open>
  \<open>_LEVEL_RE\<close> of collectors/general.py, and the same again in collectors/gpu.py: the
  parenthesised alternation first, then the pattern around it.
\<close>

definition LEVEL_GROUP :: regex where
  "LEVEL_GROUP =
     Alt (Lit ''emerg'') (Alt (Lit ''alert'') (Alt (Lit ''crit'') (Alt (Lit ''err'')
     (Alt (Lit ''warning'') (Alt (Lit ''notice'') (Alt (Lit ''info'') (Lit ''debug'')))))))"

definition LEVEL_RE :: regex where
  "LEVEL_RE = Seq WordB (Seq (Group LEVEL_GROUP) WordB)"

definition parse_level :: "string \<Rightarrow> py_error + string" where
  "parse_level line =
     (case regex_search LEVEL_RE line of
        None \<Rightarrow> Inr ''info''
      | Some m \<Rightarrow> (case group1 line m of
                    None \<Rightarrow> Inl AttributeError
                  | Some w \<Rightarrow> Inr (str_lower w)))"

text \<open>\<open>_ERROR_RE\<close> of collectors/scout.py, in the same two steps.\<close>

definition ERROR_GROUP :: regex where
  "ERROR_GROUP =
     Alt (Lit ''emerg'') (Alt (Lit ''alert'')
     (Alt (Seq (Lit ''crit'') (Opt (Lit ''ical'')))
     (Alt (Seq (Lit ''err'') (Opt (Lit ''or'')))
     (Alt (Seq (Lit ''fail'') (Opt (Alt (Lit ''ed'') (Lit ''ure''))))
     (Alt (Lit ''panic'') (Alt (Lit ''oops'') (Alt (Lit ''oom'') (Alt (Lit ''segfault'')
     (Alt (Lit ''timeout'') (Alt (Lit ''refused'') (Lit ''denied'')))))))))))"

definition ERROR_RE :: regex where
  "ERROR_RE = Seq WordB (Seq (Group ERROR_GROUP) WordB)"

definition scout_matches :: "string \<Rightarrow> py_error + string option" where
  "scout_matches line =
     (case regex_search ERROR_RE line of
        None \<Rightarrow> Inr None
      | Some m \<Rightarrow> (case group1 line m of
                    None \<Rightarrow> Inl AttributeError
                  | Some w \<Rightarrow> Inr (Some (str_lower w))))"


section \<open>collectors/scout.py: source discovery\<close>

text \<open>
  \<open>LogScout._discover_log_files\<close>.  The file system is the function's input: what
  \<open>os.scandir(self.log_dir)\<close> gives, either \<open>OSError\<close> or the entries of the directory,
  each with its \<open>name\<close> and \<open>path\<close>, what \<open>entry.is_file()\<close> gives (it may raise
  \<open>OSError\<close>), what \<open>os.access(entry.path, os.R_OK)\<close> gives, and the outcome of opening
  the file and reading 256 characters of it as UTF-8.
\<close>

datatype os_error = OSError

datatype probe = ProbeOk | ProbeUnicodeDecodeError | ProbeOSError

record DirEntry =
  de_name :: string
  de_path :: string
  is_file :: "os_error + bool"
  readable :: bool
  probe :: probe

definition SKIP_SUFFIXES :: "string set" where
  "SKIP_SUFFIXES = {''.gz'', ''.xz'', ''.bz2'', ''.zst'', ''.1'', ''.2'', ''.3'', ''.4''}"

definition SKIP_NAMES :: "string set" where
  "SKIP_NAMES = {''btmp'', ''wtmp'', ''lastlog'', ''faillog''}"

text \<open>
  The loop appends to \<open>results\<close>; an \<open>OSError\<close> of \<open>is_file\<close> leaves the loop for the
  outer handler, which returns the results gathered so far.
\<close>

fun discover_loop :: "DirEntry list \<Rightarrow> string list \<Rightarrow> string list" where
  "discover_loop [] results = results"
| "discover_loop (entry # rest) results =
     (case is_file entry of
        Inl e \<Rightarrow> results
      | Inr regular \<Rightarrow>
          if \<not> regular then discover_loop rest results
          else if de_name entry \<in> SKIP_NAMES then discover_loop rest results
          else if \<exists>s \<in> SKIP_SUFFIXES. suffix s (de_name entry) then discover_loop rest results
          else if readable entry
          then (case probe entry of
                  ProbeOk \<Rightarrow> discover_loop rest (results @ [de_path entry])
                | ProbeUnicodeDecodeError \<Rightarrow> discover_loop rest results
                | ProbeOSError \<Rightarrow> discover_loop rest results)
          else discover_loop rest results)"

definition discover_log_files :: "os_error + DirEntry list \<Rightarrow> string list" where
  "discover_log_files scandir =
     (case scandir of
        Inl e \<Rightarrow> []
      | Inr entries \<Rightarrow> discover_loop entries [])"


section \<open>collectors/scout.py: watchers and the shared hit list\<close>

text \<open>
  \<open>str.strip()\<close> removes the whitespace of both ends; on the code points 0..255 the
  whitespace characters are 9..13, 28..32, 133 and 160.
\<close>

definition py_is_space :: "char \<Rightarrow> bool" where
  "py_is_space c =
     (let n = (of_char c :: nat)
      in (9 \<le> n \<and> n \<le> 13) \<or> (28 \<le> n \<and> n \<le> 32) \<or> n = 133 \<or> n = 160)"

definition str_strip :: "string \<Rightarrow> string" where
  "str_strip s = rev (dropWhile py_is_space (rev (dropWhile py_is_space s)))"

text \<open>
  \<open>ScoutHit\<close>; its timestamp is the clock reading taken when the hit is built.
\<close>

record ScoutHit =
  hit_source :: string
  hit_line :: string
  keyword :: string
  hit_timestamp :: nat

text \<open>
  A watcher is one thread of \<open>LogScout.run\<close>: \<open>_tail_file\<close> on a path, or
  \<open>_watch_journal\<close> with the source \<open>journalctl\<close>.  What it owns is its source and the
  lines its \<open>readline\<close> calls are still to return.  The threads share \<open>self._hits\<close> only.
\<close>

record Watcher =
  w_source :: string
  unread :: "string list"

record Scout =
  hits :: "ScoutHit list"
  watchers :: "Watcher list"

text \<open>
  \<open>LogScout._record\<close>: the append runs under \<open>self._lock\<close>.  The \<open>on_hit\<close> callback that
  follows runs outside the lock, its exceptions are swallowed and it does not touch the
  hits; it is left out.
\<close>

definition record_hit :: "string \<Rightarrow> string \<Rightarrow> string \<Rightarrow> nat \<Rightarrow> ScoutHit list \<Rightarrow> ScoutHit list" where
  "record_hit src line kw now hs =
     hs @ [\<lparr>hit_source = src, hit_line = str_strip line, keyword = kw, hit_timestamp = now\<rparr>]"

text \<open>
  The body of the watcher loops for one line read: \<open>kw = self._matches(line)\<close>, then
  \<open>if kw: self._record(source, line, kw)\<close>.
\<close>

definition handle_line :: "string \<Rightarrow> string \<Rightarrow> nat \<Rightarrow> ScoutHit list \<Rightarrow> py_error + ScoutHit list" where
  "handle_line src line now hs =
     (case scout_matches line of
        Inl e \<Rightarrow> Inl e
      | Inr None \<Rightarrow> Inr hs
      | Inr (Some kw) \<Rightarrow> if kw \<noteq> [] then Inr (record_hit src line kw now hs) else Inr hs)"

text \<open>
  The threads interleave.  Everything a loop iteration does before the append is local
  to its thread, and the append is a critical section of the lock, so one step of the
  system is one iteration of one watcher, with the clock reading \<open>now\<close> arbitrary.  An
  exception of \<open>_matches\<close> is caught by no handler of the loops and ends the thread.
\<close>

inductive step :: "Scout \<Rightarrow> Scout \<Rightarrow> bool" where
  read_line:
    "i < length (watchers s) \<Longrightarrow>
     unread (watchers s ! i) = line # rest \<Longrightarrow>
     handle_line (w_source (watchers s ! i)) line now (hits s) = Inr hs \<Longrightarrow>
     step s \<lparr>hits = hs, watchers = (watchers s)[i := (watchers s ! i)\<lparr>unread := rest\<rparr>]\<rparr>"
| watcher_dies:
    "i < length (watchers s) \<Longrightarrow>
     unread (watchers s ! i) = line # rest \<Longrightarrow>
     handle_line (w_source (watchers s ! i)) line now (hits s) = Inl e \<Longrightarrow>
     step s \<lparr>hits = hits s, watchers = (watchers s)[i := (watchers s ! i)\<lparr>unread := []\<rparr>]\<rparr>"


section \<open>The vocabulary of the statements\<close>

text \<open>
  The specification speaks of a keyword present in a line as a case-insensitive
  whole-word token.  \<open>token_at s i w\<close> says so for the lowercase keyword \<open>w\<close> at
  position \<open>i\<close> of the line \<open>s\<close>: the \<open>length w\<close> characters from \<open>i\<close> on lowercase to
  \<open>w\<close>, no word character stands right before them and none right after them.
\<close>

definition token_at :: "string \<Rightarrow> nat \<Rightarrow> string \<Rightarrow> bool" where
  "token_at s i w =
     (i + length w \<le> length s
      \<and> str_lower (take (length w) (drop i s)) = w
      \<and> (i = 0 \<or> \<not> is_word_char (s ! (i - 1)))
      \<and> (i + length w = length s \<or> \<not> is_word_char (s ! (i + length w))))"


text \<open>The keyword set the specification gives for the scout's check.\<close>

definition SCOUT_KEYWORDS :: "string list" where
  "SCOUT_KEYWORDS =
     [''emerg'', ''alert'', ''critical'', ''crit'', ''error'', ''err'', ''failed'', ''failure'',
      ''panic'', ''oops'', ''oom'', ''segfault'', ''timeout'', ''refused'', ''denied'']"

text \<open>
  What the specification lets discovery return: a regular file that is not on the
  blocklist, has no rotated or compressed suffix, is readable and whose prefix decodes.
\<close>

definition eligible :: "DirEntry \<Rightarrow> bool" where
  "eligible en =
     (is_file en = Inr True
      \<and> de_name en \<notin> SKIP_NAMES
      \<and> \<not> (\<exists>s \<in> SKIP_SUFFIXES. suffix s (de_name en))
      \<and> readable en
      \<and> probe en = ProbeOk)"

text \<open>
  The hits a watcher emits for a sequence of lines, as pairs of stripped line and
  keyword; the hits of one source in the shared list, as the same pairs; and the number
  of hits the watchers are still to emit.
\<close>

fun emitted :: "string list \<Rightarrow> (string \<times> string) list" where
  "emitted [] = []"
| "emitted (line # rest) =
     (case scout_matches line of
        Inr (Some kw) \<Rightarrow> if kw \<noteq> [] then (str_strip line, kw) # emitted rest else emitted rest
      | _ \<Rightarrow> emitted rest)"

definition hits_of :: "string \<Rightarrow> ScoutHit list \<Rightarrow> (string \<times> string) list" where
  "hits_of src hs = map (\<lambda>h. (hit_line h, keyword h)) (filter (\<lambda>h. hit_source h = src) hs)"

definition backlog :: "Watcher list \<Rightarrow> nat" where
  "backlog ws = sum_list (map (\<lambda>w. length (emitted (unread w))) ws)"

text \<open>
  For the proofs: a pattern without boundary and group (\<open>plain\<close>) matches exactly the
  literal words \<open>words_of\<close> lists, in the order the backtracking matcher tries them;
  \<open>try_words\<close> is that trial of a list of words at one position, and \<open>lower_word\<close> a
  non-empty word of the letters \<open>a\<close> to \<open>z\<close>.
\<close>

primrec plain :: "regex \<Rightarrow> bool" where
  "plain (Lit w) = True"
| "plain WordB = False"
| "plain (Seq a b) = (plain a \<and> plain b)"
| "plain (Alt a b) = (plain a \<and> plain b)"
| "plain (Opt a) = plain a"
| "plain (Group a) = False"

primrec words_of :: "regex \<Rightarrow> string list" where
  "words_of (Lit w) = [w]"
| "words_of WordB = []"
| "words_of (Seq a b) = concat (map (\<lambda>x. map (\<lambda>y. x @ y) (words_of b)) (words_of a))"
| "words_of (Alt a b) = words_of a @ words_of b"
| "words_of (Opt a) = words_of a @ [[]]"
| "words_of (Group a) = words_of a"

fun try_words :: "string list \<Rightarrow> string \<Rightarrow> cont \<Rightarrow> nat \<Rightarrow> span option \<Rightarrow> (nat \<times> span option) option" where
  "try_words [] s k i g = None"
| "try_words (w # ws) s k i g =
     (if lit_at w s i
      then (case k (i + length w) g of Some m \<Rightarrow> Some m | None \<Rightarrow> try_words ws s k i g)
      else try_words ws s k i g)"

definition lower_word :: "string \<Rightarrow> bool" where
  "lower_word w = (w \<noteq> [] \<and> (\<forall>c \<in> set w. 97 \<le> (of_char c :: nat) \<and> (of_char c :: nat) \<le> 122))"


section \<open>Rule resolution\<close>

lemma str_contains_iff:
  "str_contains needle hay \<longleftrightarrow> (\<exists>ps ss. hay = ps @ needle @ ss)"
proof (induction hay)
  case Nil
  then show ?case by auto
next
  case (Cons c cs)
  show ?case
  proof
    assume "str_contains needle (c # cs)"
    then consider "prefix needle (c # cs)" | "str_contains needle cs" by auto
    then show "\<exists>ps ss. c # cs = ps @ needle @ ss"
    proof cases
      case 1
      then obtain ss where "c # cs = needle @ ss" by (auto simp: prefix_def)
      then have "c # cs = [] @ needle @ ss" by simp
      then show ?thesis by blast
    next
      case 2
      with Cons.IH obtain ps ss where "cs = ps @ needle @ ss" by blast
      then have "c # cs = (c # ps) @ needle @ ss" by simp
      then show ?thesis by blast
    qed
  next
    assume "\<exists>ps ss. c # cs = ps @ needle @ ss"
    then obtain ps ss where eq: "c # cs = ps @ needle @ ss" by blast
    show "str_contains needle (c # cs)"
    proof (cases ps)
      case Nil
      with eq have "prefix needle (c # cs)" by (simp add: prefix_def)
      then show ?thesis by simp
    next
      case (Cons p ps')
      with eq have "cs = ps' @ needle @ ss" by simp
      with Cons.IH have "str_contains needle cs" by blast
      then show ?thesis by simp
    qed
  qed
qed

lemma resolve_loop_skip:
  "\<forall>r \<in> set pre. \<not> matches re r s rw l \<Longrightarrow>
   resolve_loop re (pre @ rest) s rw l = resolve_loop re rest s rw l"
  by (induction pre) auto

lemma resolve_loop_first:
  assumes "i < length rules"
    and "matches re (rules ! i) s rw l"
    and "\<forall>j<i. \<not> matches re (rules ! j) s rw l"
  shows "resolve_loop re rules s rw l = instruction (rules ! i)"
proof -
  have split: "rules = take i rules @ (rules ! i) # drop (Suc i) rules"
    using assms(1) by (simp add: id_take_nth_drop)
  have "\<forall>r \<in> set (take i rules). \<not> matches re r s rw l"
  proof
    fix r assume "r \<in> set (take i rules)"
    then obtain j where "j < length (take i rules)" "r = take i rules ! j"
      by (auto simp: in_set_conv_nth)
    then have "j < i" "r = rules ! j" by auto
    with assms(3) show "\<not> matches re r s rw l" by blast
  qed
  then have "resolve_loop re (take i rules @ (rules ! i) # drop (Suc i) rules) s rw l
             = resolve_loop re ((rules ! i) # drop (Suc i) rules) s rw l"
    by (rule resolve_loop_skip)
  also have "\<dots> = instruction (rules ! i)" using assms(2) by simp
  finally show ?thesis using split by simp
qed

lemma resolve_loop_none:
  "\<forall>r \<in> set rules. \<not> matches re r s rw l \<Longrightarrow> resolve_loop re rules s rw l = []"
  by (induction rules) auto


text \<open>
  Claim C1.  For every ordered rule list and every entry (source, raw text, level),
  \<open>resolve_instruction\<close> returns the instruction of the rule at the least index whose
  conditions hold for the entry, whatever the rules after it are; it returns the empty
  string when no rule matches, and in particular when the list is empty.
\<close>

theorem resolve_instruction_earliest_match:
  "(\<forall>i < length (instruction_rules t).
      matches re (instruction_rules t ! i) s rw l \<and>
      (\<forall>j < i. \<not> matches re (instruction_rules t ! j) s rw l) \<longrightarrow>
      resolve_instruction re t s rw l = instruction (instruction_rules t ! i))
   \<and> ((\<forall>i < length (instruction_rules t). \<not> matches re (instruction_rules t ! i) s rw l) \<longrightarrow>
      resolve_instruction re t s rw l = [])
   \<and> (instruction_rules t = [] \<longrightarrow> resolve_instruction re t s rw l = [])"
proof (intro conjI allI impI)
  fix i
  assume "i < length (instruction_rules t)"
    and "matches re (instruction_rules t ! i) s rw l \<and>
      (\<forall>j < i. \<not> matches re (instruction_rules t ! j) s rw l)"
  then show "resolve_instruction re t s rw l = instruction (instruction_rules t ! i)"
    unfolding resolve_instruction_def by (intro resolve_loop_first) auto
next
  assume "\<forall>i < length (instruction_rules t). \<not> matches re (instruction_rules t ! i) s rw l"
  then have "\<forall>r \<in> set (instruction_rules t). \<not> matches re r s rw l"
    by (auto simp: in_set_conv_nth)
  then show "resolve_instruction re t s rw l = []"
    unfolding resolve_instruction_def by (rule resolve_loop_none)
next
  assume "instruction_rules t = []"
  then show "resolve_instruction re t s rw l = []"
    by (simp add: resolve_instruction_def)
qed

text \<open>
  Three overlapping rules: the first does not match, the second (no condition) and the
  third (two conditions) both match; the second one's instruction is returned.
\<close>

theorem resolve_instruction_earliest_match_witness:
  "\<not> matches (\<lambda>p s. Inr False)
       \<lparr>instruction = ''A'', match_source = [], match_pattern = [], match_levels = [''err'']\<rparr>
       ''/var/log/Kern.log'' ''x'' ''CRIT''
   \<and> matches (\<lambda>p s. Inr False)
       \<lparr>instruction = ''B'', match_source = [], match_pattern = [], match_levels = []\<rparr>
       ''/var/log/Kern.log'' ''x'' ''CRIT''
   \<and> matches (\<lambda>p s. Inr False)
       \<lparr>instruction = ''C'', match_source = ''kern'', match_pattern = [], match_levels = [''crit'']\<rparr>
       ''/var/log/Kern.log'' ''x'' ''CRIT''
   \<and> resolve_instruction (\<lambda>p s. Inr False)
       \<lparr>t_name = ''t'', description = [],
        instruction_rules =
          [\<lparr>instruction = ''A'', match_source = [], match_pattern = [], match_levels = [''err'']\<rparr>,
           \<lparr>instruction = ''B'', match_source = [], match_pattern = [], match_levels = []\<rparr>,
           \<lparr>instruction = ''C'', match_source = ''kern'', match_pattern = [], match_levels = [''crit'']\<rparr>],
        custom_sources = []\<rparr>
       ''/var/log/Kern.log'' ''x'' ''CRIT'' = ''B''"
proof -
  let ?re = "\<lambda>(p::string) (s::string). (Inr False :: re_error + bool)"
  let ?t = "\<lparr>t_name = ''t'', description = [],
        instruction_rules =
          [\<lparr>instruction = ''A'', match_source = [], match_pattern = [], match_levels = [''err'']\<rparr>,
           \<lparr>instruction = ''B'', match_source = [], match_pattern = [], match_levels = []\<rparr>,
           \<lparr>instruction = ''C'', match_source = ''kern'', match_pattern = [], match_levels = [''crit'']\<rparr>],
        custom_sources = []\<rparr>"
  have m0: "\<not> matches ?re (instruction_rules ?t ! 0) ''/var/log/Kern.log'' ''x'' ''CRIT''"
    by code_simp
  have m1: "matches ?re (instruction_rules ?t ! 1) ''/var/log/Kern.log'' ''x'' ''CRIT''"
    by code_simp
  have m2: "matches ?re (instruction_rules ?t ! 2) ''/var/log/Kern.log'' ''x'' ''CRIT''"
    by code_simp
  have len: "1 < length (instruction_rules ?t)" by simp
  have pre: "matches ?re (instruction_rules ?t ! 1) ''/var/log/Kern.log'' ''x'' ''CRIT'' \<and>
      (\<forall>j < 1. \<not> matches ?re (instruction_rules ?t ! j) ''/var/log/Kern.log'' ''x'' ''CRIT'')"
    using m0 m1 by simp
  have "resolve_instruction ?re ?t ''/var/log/Kern.log'' ''x'' ''CRIT''
      = instruction (instruction_rules ?t ! 1)"
    by (rule resolve_instruction_earliest_match [THEN conjunct1, rule_format, OF len pre])
  with m0 m1 m2 show ?thesis by simp
qed


section \<open>Rule conditions\<close>

lemma matches_iff:
  "matches re rule src rw lvl \<longleftrightarrow>
     (match_source rule = [] \<or> str_contains (str_lower (match_source rule)) (str_lower src))
   \<and> (match_levels rule = [] \<or> str_lower lvl \<in> set (map str_lower (match_levels rule)))
   \<and> (match_pattern rule = [] \<or> re (match_pattern rule) rw = Inr True)"
  by (auto simp: matches_def split: sum.splits)

lemma lower_info: "str_lower ''info'' = ''info''" by code_simp
lemma lower_err: "str_lower ''err'' = ''err''" by code_simp
lemma lower_crit: "str_lower ''crit'' = ''crit''" by code_simp

text \<open>
  Claim C2.  A rule matches an entry exactly when each non-empty condition holds: the
  lowercased source contains the lowercased \<open>match_source\<close> as a substring, the
  lowercased level equals the lowercasing of one of \<open>match_levels\<close>, and the regex
  search of \<open>match_pattern\<close> on the raw text finds a match; an empty condition holds.
  A rule whose only condition is the levels \<open>err\<close>, \<open>crit\<close> rejects level \<open>info\<close>
  and accepts level \<open>crit\<close>, for every source, text and regex library.
\<close>

theorem matches_iff_all_present_conditions:
  "(matches re rule src rw lvl \<longleftrightarrow>
      (match_source rule = [] \<or>
         (\<exists>ps ss. str_lower src = ps @ str_lower (match_source rule) @ ss))
    \<and> (match_levels rule = [] \<or>
         (\<exists>a \<in> set (match_levels rule). str_lower a = str_lower lvl))
    \<and> (match_pattern rule = [] \<or> re (match_pattern rule) rw = Inr True))
   \<and> \<not> matches re \<lparr>instruction = ins, match_source = [], match_pattern = [],
                      match_levels = [''err'', ''crit'']\<rparr> src' rw' ''info''
   \<and> matches re \<lparr>instruction = ins, match_source = [], match_pattern = [],
                    match_levels = [''err'', ''crit'']\<rparr> src' rw' ''crit''"
proof (intro conjI)
  have lv: "str_lower lvl \<in> set (map str_lower (match_levels rule)) \<longleftrightarrow>
      (\<exists>a \<in> set (match_levels rule). str_lower a = str_lower lvl)"
    unfolding set_map image_iff by (rule bex_cong [OF refl]) (rule eq_commute)
  show "matches re rule src rw lvl \<longleftrightarrow>
      (match_source rule = [] \<or>
         (\<exists>ps ss. str_lower src = ps @ str_lower (match_source rule) @ ss))
    \<and> (match_levels rule = [] \<or>
         (\<exists>a \<in> set (match_levels rule). str_lower a = str_lower lvl))
    \<and> (match_pattern rule = [] \<or> re (match_pattern rule) rw = Inr True)"
    unfolding matches_iff str_contains_iff lv by (rule refl)
  show "\<not> matches re \<lparr>instruction = ins, match_source = [], match_pattern = [],
                      match_levels = [''err'', ''crit'']\<rparr> src' rw' ''info''"
    by (simp add: matches_iff lower_info lower_err lower_crit)
  show "matches re \<lparr>instruction = ins, match_source = [], match_pattern = [],
                    match_levels = [''err'', ''crit'']\<rparr> src' rw' ''crit''"
    by (simp add: matches_iff lower_err lower_crit)
qed

text \<open>
  A rule with all three conditions: it matches when all hold, and stops matching when
  the pattern does not find the text.
\<close>

theorem matches_iff_all_present_conditions_witness:
  "matches (\<lambda>p s. if p = ''disk.*fail'' \<and> s = ''Disk sda FAILED'' then Inr True else Inr False)
     \<lparr>instruction = ''I'', match_source = ''Kern'', match_pattern = ''disk.*fail'',
      match_levels = [''ERR'', ''crit'']\<rparr>
     ''/var/log/kern.log'' ''Disk sda FAILED'' ''Err''
   \<and> \<not> matches (\<lambda>p s. if p = ''disk.*fail'' \<and> s = ''Disk sda FAILED'' then Inr True else Inr False)
     \<lparr>instruction = ''I'', match_source = ''Kern'', match_pattern = ''disk.*fail'',
      match_levels = [''ERR'', ''crit'']\<rparr>
     ''/var/log/kern.log'' ''Disk sda ok'' ''Err''"
proof -
  let ?re = "\<lambda>p s. if p = ''disk.*fail'' \<and> s = ''Disk sda FAILED''
                      then (Inr True :: re_error + bool) else Inr False"
  let ?rule = "\<lparr>instruction = ''I'', match_source = ''Kern'', match_pattern = ''disk.*fail'',
      match_levels = [''ERR'', ''crit'']\<rparr>"
  have src: "str_lower ''/var/log/kern.log'' = ''/var/log/'' @ str_lower (match_source ?rule) @ ''.log''"
    by code_simp
  have lvl: "str_lower ''ERR'' = str_lower ''Err''" by code_simp
  have a: "match_source ?rule = [] \<or>
       (\<exists>ps ss. str_lower ''/var/log/kern.log'' = ps @ str_lower (match_source ?rule) @ ss)"
    using src by blast
  have b: "match_levels ?rule = [] \<or>
       (\<exists>a \<in> set (match_levels ?rule). str_lower a = str_lower ''Err'')"
    using lvl by simp
  have c: "match_pattern ?rule = [] \<or> ?re (match_pattern ?rule) ''Disk sda FAILED'' = Inr True"
    by simp
  have d: "\<not> (match_pattern ?rule = [] \<or> ?re (match_pattern ?rule) ''Disk sda ok'' = Inr True)"
    by simp
  have yes: "matches ?re ?rule ''/var/log/kern.log'' ''Disk sda FAILED'' ''Err''"
    using matches_iff_all_present_conditions
      [of ?re ?rule "''/var/log/kern.log''" "''Disk sda FAILED''" "''Err''", THEN conjunct1]
      a b c by blast
  have no: "\<not> matches ?re ?rule ''/var/log/kern.log'' ''Disk sda ok'' ''Err''"
    using matches_iff_all_present_conditions
      [of ?re ?rule "''/var/log/kern.log''" "''Disk sda ok''" "''Err''", THEN conjunct1]
      d by blast
  from yes no show ?thesis by blast
qed





section \<open>Formatter fallback\<close>

lemma INSTRUCTION_MAP_dom:
  "dom INSTRUCTION_MAP = {''error'', ''err'', ''crit'', ''alert'', ''emerg'', ''warning'', ''warn''}"
  unfolding INSTRUCTION_MAP_def by (simp add: dom_map_of_conv_image_fst)

lemma INSTRUCTION_MAP_ran:
  "INSTRUCTION_MAP k = Some v \<Longrightarrow>
     v = ''Interpret the error message in the given log.'' \<or>
     v = ''Analyze the potential issue described in this log entry.''"
  unfolding INSTRUCTION_MAP_def by (auto split: if_splits)

lemma INSTRUCTION_MAP_not_default: "INSTRUCTION_MAP k \<noteq> Some DEFAULT_INSTRUCTION"
  using INSTRUCTION_MAP_ran [of k DEFAULT_INSTRUCTION] by (auto simp: DEFAULT_INSTRUCTION_def)

lemma INSTRUCTION_MAP_nonempty: "INSTRUCTION_MAP k \<noteq> Some []"
  using INSTRUCTION_MAP_ran [of k "[]"] by auto


text \<open>
  Claim C4.  Let \<open>r\<close> be what rule resolution yields (empty without a template).  A
  non-empty \<open>r\<close> is the instruction.  Otherwise the instruction is the entry of
  \<open>INSTRUCTION_MAP\<close> for the lowercased level when there is one, and
  \<open>DEFAULT_INSTRUCTION\<close> when there is none; the fallback gives \<open>DEFAULT_INSTRUCTION\<close>
  only for a level outside the table.
\<close>

theorem entry_to_loglm_two_tier_fallback:
  "(case template of
      None \<Rightarrow> []
    | Some t \<Rightarrow> resolve_instruction re t (source entry) (raw entry) (level entry)) = r
   \<Longrightarrow>
   (r \<noteq> [] \<longrightarrow> Instruction (entry_to_loglm re entry template) = r)
   \<and> (r = [] \<longrightarrow> (\<forall>d. INSTRUCTION_MAP (str_lower (level entry)) = Some d \<longrightarrow>
          Instruction (entry_to_loglm re entry template) = d))
   \<and> (r = [] \<longrightarrow> str_lower (level entry) \<notin> dom INSTRUCTION_MAP \<longrightarrow>
          Instruction (entry_to_loglm re entry template) = DEFAULT_INSTRUCTION)
   \<and> (r = [] \<longrightarrow> Instruction (entry_to_loglm re entry template) = DEFAULT_INSTRUCTION \<longrightarrow>
          str_lower (level entry) \<notin> dom INSTRUCTION_MAP)
   \<and> dom INSTRUCTION_MAP = {''error'', ''err'', ''crit'', ''alert'', ''emerg'', ''warning'', ''warn''}
   \<and> Input (entry_to_loglm re entry template) = raw entry
   \<and> Response (entry_to_loglm re entry template) = []"
proof -
  assume r: "(case template of
      None \<Rightarrow> []
    | Some t \<Rightarrow> resolve_instruction re t (source entry) (raw entry) (level entry)) = r"
  have ins: "Instruction (entry_to_loglm re entry template) =
      (if r = [] then (case INSTRUCTION_MAP (str_lower (level entry)) of
                         Some v \<Rightarrow> v | None \<Rightarrow> DEFAULT_INSTRUCTION)
       else r)"
    using r by (simp add: entry_to_loglm_def Let_def)
  have t1: "r \<noteq> [] \<longrightarrow> Instruction (entry_to_loglm re entry template) = r"
    using ins by simp
  have t2: "r = [] \<longrightarrow> (\<forall>d. INSTRUCTION_MAP (str_lower (level entry)) = Some d \<longrightarrow>
          Instruction (entry_to_loglm re entry template) = d)"
    using ins by simp
  have t3: "r = [] \<longrightarrow> str_lower (level entry) \<notin> dom INSTRUCTION_MAP \<longrightarrow>
          Instruction (entry_to_loglm re entry template) = DEFAULT_INSTRUCTION"
    using ins by (auto simp: dom_def)
  have t4: "r = [] \<longrightarrow> Instruction (entry_to_loglm re entry template) = DEFAULT_INSTRUCTION \<longrightarrow>
          str_lower (level entry) \<notin> dom INSTRUCTION_MAP"
    using ins INSTRUCTION_MAP_not_default [of "str_lower (level entry)"]
    by (auto simp: dom_def split: option.splits)
  have t5: "Input (entry_to_loglm re entry template) = raw entry"
    by (simp add: entry_to_loglm_def Let_def)
  have t6: "Response (entry_to_loglm re entry template) = []"
    by (simp add: entry_to_loglm_def Let_def)
  from t1 t2 t3 t4 t5 t6 INSTRUCTION_MAP_dom show ?thesis by blast
qed


text \<open>One entry per tier: a matching rule, a level of the table, a level outside it.\<close>

theorem entry_to_loglm_two_tier_fallback_witness:
  "Instruction (entry_to_loglm (\<lambda>p s. Inr False)
       \<lparr>source = ''kern'', message = ''m'', raw = ''m'', timestamp = None, level = ''ERR''\<rparr>
       (Some \<lparr>t_name = ''t'', description = [],
              instruction_rules =
                [\<lparr>instruction = ''Custom'', match_source = [], match_pattern = [],
                  match_levels = [''err'']\<rparr>],
              custom_sources = []\<rparr>)) = ''Custom''
   \<and> Instruction (entry_to_loglm (\<lambda>p s. Inr False)
       \<lparr>source = ''kern'', message = ''m'', raw = ''m'', timestamp = None, level = ''ERR''\<rparr>
       None) = ''Interpret the error message in the given log.''
   \<and> Instruction (entry_to_loglm (\<lambda>p s. Inr False)
       \<lparr>source = ''kern'', message = ''m'', raw = ''m'', timestamp = None, level = ''notice''\<rparr>
       None) = DEFAULT_INSTRUCTION"
proof -
  let ?re = "\<lambda>(p::string) (s::string). (Inr False :: re_error + bool)"
  let ?e = "\<lparr>source = ''kern'', message = ''m'', raw = ''m'', timestamp = None, level = ''ERR''\<rparr>"
  let ?n = "\<lparr>source = ''kern'', message = ''m'', raw = ''m'', timestamp = None, level = ''notice''\<rparr>"
  let ?t = "\<lparr>t_name = ''t'', description = [],
              instruction_rules =
                [\<lparr>instruction = ''Custom'', match_source = [], match_pattern = [],
                  match_levels = [''err'']\<rparr>],
              custom_sources = []\<rparr>"
  have r1: "(case Some ?t of None \<Rightarrow> []
             | Some t \<Rightarrow> resolve_instruction ?re t (source ?e) (raw ?e) (level ?e)) = ''Custom''"
    by code_simp
  have r2: "(case (None :: Template option) of None \<Rightarrow> []
             | Some t \<Rightarrow> resolve_instruction ?re t (source ?e) (raw ?e) (level ?e)) = []"
    by simp
  have r3: "(case (None :: Template option) of None \<Rightarrow> []
             | Some t \<Rightarrow> resolve_instruction ?re t (source ?n) (raw ?n) (level ?n)) = []"
    by simp
  have m2: "INSTRUCTION_MAP (str_lower (level ?e)) = Some ''Interpret the error message in the given log.''"
    by code_simp
  have m3: "str_lower (level ?n) \<notin> dom INSTRUCTION_MAP"
    unfolding dom_def by code_simp
  from entry_to_loglm_two_tier_fallback [OF r1]
  have a: "Instruction (entry_to_loglm ?re ?e (Some ?t)) = ''Custom''" by simp
  from entry_to_loglm_two_tier_fallback [OF r2] m2
  have b: "Instruction (entry_to_loglm ?re ?e None) = ''Interpret the error message in the given log.''"
    by blast
  from entry_to_loglm_two_tier_fallback [OF r3] m3
  have c: "Instruction (entry_to_loglm ?re ?n None) = DEFAULT_INSTRUCTION"
    by blast
  from a b c show ?thesis by blast
qed

text \<open>
  Claim C9.  When the first matching rule carries the empty instruction, the formatter's
  output is the output without a template, and the output for any template none of
  whose rules match: the instruction comes from the level tier and is never empty.
\<close>

theorem empty_instruction_rule_falls_back:
  assumes "i < length (instruction_rules t)"
    and "matches re (instruction_rules t ! i) (source e) (raw e) (level e)"
    and "\<forall>j<i. \<not> matches re (instruction_rules t ! j) (source e) (raw e) (level e)"
    and "instruction (instruction_rules t ! i) = []"
  shows "entry_to_loglm re e (Some t) = entry_to_loglm re e None
     \<and> (\<forall>t'. (\<forall>r \<in> set (instruction_rules t'). \<not> matches re r (source e) (raw e) (level e)) \<longrightarrow>
            entry_to_loglm re e (Some t) = entry_to_loglm re e (Some t'))
     \<and> Instruction (entry_to_loglm re e (Some t)) =
         (case INSTRUCTION_MAP (str_lower (level e)) of
            Some v \<Rightarrow> v | None \<Rightarrow> DEFAULT_INSTRUCTION)
     \<and> Instruction (entry_to_loglm re e (Some t)) \<noteq> []"
proof -
  have res: "resolve_instruction re t (source e) (raw e) (level e) = []"
    unfolding resolve_instruction_def
    using resolve_loop_first [OF assms(1) assms(2) assms(3)] assms(4) by simp
  have a: "entry_to_loglm re e (Some t) = entry_to_loglm re e None"
    using res by (simp add: entry_to_loglm_def)
  have b: "\<forall>t'. (\<forall>r \<in> set (instruction_rules t'). \<not> matches re r (source e) (raw e) (level e)) \<longrightarrow>
            entry_to_loglm re e (Some t) = entry_to_loglm re e (Some t')"
    using res by (simp add: entry_to_loglm_def resolve_instruction_def resolve_loop_none)
  have c: "Instruction (entry_to_loglm re e (Some t)) =
         (case INSTRUCTION_MAP (str_lower (level e)) of
            Some v \<Rightarrow> v | None \<Rightarrow> DEFAULT_INSTRUCTION)"
    using res by (simp add: entry_to_loglm_def)
  have d: "Instruction (entry_to_loglm re e (Some t)) \<noteq> []"
    unfolding c using INSTRUCTION_MAP_nonempty [of "str_lower (level e)"]
    by (auto simp: DEFAULT_INSTRUCTION_def split: option.splits)
  from a b c d show ?thesis by blast
qed

text \<open>
  The second rule is the first to match and has an empty instruction; a later rule
  with an instruction is not consulted.
\<close>

theorem empty_instruction_rule_falls_back_witness:
  "entry_to_loglm (\<lambda>p s. Inr False)
       \<lparr>source = ''kern'', message = ''m'', raw = ''m'', timestamp = None, level = ''warn''\<rparr>
       (Some \<lparr>t_name = ''t'', description = [],
              instruction_rules =
                [\<lparr>instruction = ''A'', match_source = ''auth'', match_pattern = [], match_levels = []\<rparr>,
                 \<lparr>instruction = [], match_source = [], match_pattern = [], match_levels = [''WARN'']\<rparr>,
                 \<lparr>instruction = ''C'', match_source = [], match_pattern = [], match_levels = []\<rparr>],
              custom_sources = []\<rparr>)
   = \<lparr>Instruction = ''Analyze the potential issue described in this log entry.'',
      Input = ''m'', Response = []\<rparr>"
proof -
  let ?re = "\<lambda>(p::string) (s::string). (Inr False :: re_error + bool)"
  let ?e = "\<lparr>source = ''kern'', message = ''m'', raw = ''m'', timestamp = None, level = ''warn''\<rparr>"
  let ?t = "\<lparr>t_name = ''t'', description = [],
              instruction_rules =
                [\<lparr>instruction = ''A'', match_source = ''auth'', match_pattern = [], match_levels = []\<rparr>,
                 \<lparr>instruction = [], match_source = [], match_pattern = [], match_levels = [''WARN'']\<rparr>,
                 \<lparr>instruction = ''C'', match_source = [], match_pattern = [], match_levels = []\<rparr>],
              custom_sources = []\<rparr>"
  have h1: "1 < length (instruction_rules ?t)" by simp
  have m0: "\<not> matches ?re (instruction_rules ?t ! 0) (source ?e) (raw ?e) (level ?e)"
    by code_simp
  have h2: "matches ?re (instruction_rules ?t ! 1) (source ?e) (raw ?e) (level ?e)"
    by code_simp
  have h3: "\<forall>j<1. \<not> matches ?re (instruction_rules ?t ! j) (source ?e) (raw ?e) (level ?e)"
    using m0 by simp
  have h4: "instruction (instruction_rules ?t ! 1) = []" by simp
  have n: "entry_to_loglm ?re ?e None
     = \<lparr>Instruction = ''Analyze the potential issue described in this log entry.'',
        Input = ''m'', Response = []\<rparr>"
    by code_simp
  from empty_instruction_rule_falls_back [OF h1 h2 h3 h4] n show ?thesis by simp
qed


section \<open>From the patterns to tokens\<close>

lemma lit_at_append: "lit_at (x @ y) s i = (lit_at x s i \<and> lit_at y s (i + length x))"
  by (induction x arbitrary: i) auto

lemma try_words_append:
  "try_words (xs @ ys) s k i g =
     (case try_words xs s k i g of Some m \<Rightarrow> Some m | None \<Rightarrow> try_words ys s k i g)"
  by (induction xs) (auto split: option.splits)

lemma try_words_prefixed:
  "try_words (map (\<lambda>y. x @ y) ys) s k i g =
     (if lit_at x s i then try_words ys s k (i + length x) g else None)"
  by (induction ys) (auto simp: lit_at_append add.assoc split: option.splits)

lemma try_words_product:
  "try_words (concat (map (\<lambda>x. map (\<lambda>y. x @ y) ys) xs)) s k i g =
     try_words xs s (try_words ys s k) i g"
  by (induction xs) (auto simp: try_words_append try_words_prefixed split: option.splits)

lemma plain_rmatch:
  "plain r \<Longrightarrow> rmatch r s k i g = try_words (words_of r) s k i g"
proof (induction r arbitrary: k i g)
  case (Lit w)
  show ?case by (auto split: option.splits)
next
  case WordB
  then show ?case by simp
next
  case (Seq a b)
  then have pa: "plain a" and pb: "plain b" by auto
  have kb: "rmatch b s k = try_words (words_of b) s k"
    by (intro ext) (rule Seq.IH(2) [OF pb])
  show ?case
    by (simp add: Seq.IH(1) [OF pa] kb try_words_product)
next
  case (Alt a b)
  then show ?case by (auto simp: try_words_append split: option.splits)
next
  case (Opt a)
  then show ?case by (auto simp: try_words_append split: option.splits)
next
  case (Group a)
  then show ?case by simp
qed

lemma match_at_word_pattern:
  "plain a \<Longrightarrow>
   match_at (Seq WordB (Seq (Group a) WordB)) s i =
     (if word_boundary s i
      then try_words (words_of a) s
             (\<lambda>j g. if word_boundary s j then Some (j, Some (i, j)) else None) i None
      else None)"
  by (simp add: match_at_def plain_rmatch)

lemma try_words_boundary:
  "try_words ws s (\<lambda>j g. if word_boundary s j then Some (j, Some (i, j)) else None) i g0 =
     (case List.find (\<lambda>w. lit_at w s i \<and> word_boundary s (i + length w)) ws of
        None \<Rightarrow> None
      | Some w \<Rightarrow> Some (i + length w, Some (i, i + length w)))"
  by (induction ws) auto


lemma py_lower_char_lower_letter:
  "97 \<le> (of_char c :: nat) \<Longrightarrow> (of_char c :: nat) \<le> 122 \<Longrightarrow> py_lower_char c = c"
  by (simp add: py_lower_char_def)

lemma of_char_py_lower_char:
  "(of_char (py_lower_char c) :: nat) =
     (let n = (of_char c :: nat)
      in if (65 \<le> n \<and> n \<le> 90) \<or> (192 \<le> n \<and> n \<le> 214) \<or> (216 \<le> n \<and> n \<le> 222)
         then n + 32 else n)"
  by (auto simp: py_lower_char_def Let_def)

lemma lowers_to_letter_is_word:
  assumes "97 \<le> (of_char (py_lower_char c) :: nat)" and "(of_char (py_lower_char c) :: nat) \<le> 122"
  shows "is_word_char c"
  using assms unfolding of_char_py_lower_char is_word_char_def Let_def
  by (auto split: if_splits)

lemma str_lower_lower_word: "lower_word w \<Longrightarrow> str_lower w = w"
  unfolding lower_word_def str_lower_def
  by (simp add: map_idI py_lower_char_lower_letter)

lemma lit_at_iff:
  "i \<le> length s \<Longrightarrow> lit_at w s i \<longleftrightarrow>
     i + length w \<le> length s \<and> str_lower (take (length w) (drop i s)) = str_lower w"
proof (induction w arbitrary: i)
  case Nil
  then show ?case by (simp add: str_lower_def)
next
  case (Cons p ps)
  show ?case
  proof (cases "i < length s")
    case True
    then have d: "drop i s = s ! i # drop (Suc i) s"
      by (simp add: Cons_nth_drop_Suc)
    from True have "Suc i \<le> length s" by simp
    note IH = Cons.IH [OF this]
    show ?thesis
      using True by (auto simp: IH d str_lower_def)
  next
    case False
    then show ?thesis by simp
  qed
qed

lemma word_boundary_start:
  "i < length s \<Longrightarrow> is_word_char (s ! i) \<Longrightarrow>
   word_boundary s i \<longleftrightarrow> (i = 0 \<or> \<not> is_word_char (s ! (i - 1)))"
  by (auto simp: word_boundary_def Let_def)

lemma word_boundary_end:
  "0 < j \<Longrightarrow> j \<le> length s \<Longrightarrow> is_word_char (s ! (j - 1)) \<Longrightarrow>
   word_boundary s j \<longleftrightarrow> (j = length s \<or> \<not> is_word_char (s ! j))"
  by (auto simp: word_boundary_def Let_def)

lemma lit_at_lower_nth:
  assumes "lit_at w s i" and "i \<le> length s" and "n < length w"
  shows "py_lower_char (s ! (i + n)) = py_lower_char (w ! n)"
proof -
  from assms(1,2) have len: "i + length w \<le> length s"
    and eq: "str_lower (take (length w) (drop i s)) = str_lower w"
    by (simp_all add: lit_at_iff)
  from eq have "str_lower (take (length w) (drop i s)) ! n = str_lower w ! n" by simp
  moreover have "str_lower (take (length w) (drop i s)) ! n = py_lower_char (s ! (i + n))"
    using len assms(3) by (simp add: str_lower_def)
  moreover have "str_lower w ! n = py_lower_char (w ! n)"
    using assms(3) by (simp add: str_lower_def)
  ultimately show ?thesis by simp
qed

lemma lit_at_word_chars:
  assumes "lit_at w s i" and "i \<le> length s" and "lower_word w" and "n < length w"
  shows "is_word_char (s ! (i + n))"
proof -
  have l: "py_lower_char (s ! (i + n)) = py_lower_char (w ! n)"
    using assms(1,2,4) by (rule lit_at_lower_nth)
  have in_w: "w ! n \<in> set w" using assms(4) by simp
  then have rng: "97 \<le> (of_char (w ! n) :: nat)" "(of_char (w ! n) :: nat) \<le> 122"
    using assms(3) by (auto simp: lower_word_def)
  then have "py_lower_char (w ! n) = w ! n" by (rule py_lower_char_lower_letter)
  with l rng show ?thesis by (intro lowers_to_letter_is_word) simp_all
qed

lemma token_at_iff_match:
  assumes lw: "lower_word w" and i: "i \<le> length s"
  shows "(word_boundary s i \<and> lit_at w s i \<and> word_boundary s (i + length w)) \<longleftrightarrow> token_at s i w"
proof (cases "lit_at w s i")
  case False
  then show ?thesis
    using i lw by (auto simp: lit_at_iff token_at_def str_lower_lower_word)
next
  case True
  from lw have ne: "0 < length w" by (simp add: lower_word_def)
  from True i have len: "i + length w \<le> length s"
    and eq: "str_lower (take (length w) (drop i s)) = w"
    using lw by (simp_all add: lit_at_iff str_lower_lower_word)
  have first: "is_word_char (s ! i)"
    using lit_at_word_chars [OF True i lw ne] by simp
  have last: "is_word_char (s ! (i + length w - 1))"
    using lit_at_word_chars [OF True i lw, of "length w - 1"] ne by simp
  from len ne have ilt: "i < length s" by linarith
  have a: "word_boundary s i \<longleftrightarrow> (i = 0 \<or> \<not> is_word_char (s ! (i - 1)))"
    using ilt first by (rule word_boundary_start)
  have b: "word_boundary s (i + length w) \<longleftrightarrow>
       (i + length w = length s \<or> \<not> is_word_char (s ! (i + length w)))"
  proof (rule word_boundary_end)
    show "0 < i + length w" using ne by simp
    show "i + length w \<le> length s" by (rule len)
    show "is_word_char (s ! (i + length w - 1))" by (rule last)
  qed
  show ?thesis
    using True len eq a b by (simp add: token_at_def)
qed

lemma token_at_unique:
  assumes "lower_word w" and "lower_word v" and "token_at s i w" and "token_at s i v"
  shows "w = v"
proof -
  have aux: "w' = v'"
    if lw: "lower_word w'" and lv: "lower_word v'" and tw: "token_at s i w'" and tv: "token_at s i v'"
      and le: "length w' \<le> length v'" for w' v'
  proof (cases "length w' = length v'")
    case True
    with tw tv show ?thesis by (simp add: token_at_def)
  next
    case False
    with le have lt: "length w' < length v'" by simp
    from tv have i: "i \<le> length s" by (simp add: token_at_def)
    from tv lv i have lit: "lit_at v' s i"
      using token_at_iff_match [OF lv i] by blast
    have "is_word_char (s ! (i + length w'))"
      using lit i lv lt by (rule lit_at_word_chars)
    moreover from tv lt have "i + length w' \<noteq> length s" by (simp add: token_at_def)
    ultimately show ?thesis using tw by (simp add: token_at_def)
  qed
  show ?thesis
  proof (cases "length w \<le> length v")
    case True
    with assms show ?thesis by (intro aux)
  next
    case False
    then have "length v \<le> length w" by simp
    with assms have "v = w" by (intro aux)
    then show ?thesis by simp
  qed
qed

lemma find_guarded:
  "(if b then (case List.find P ws of None \<Rightarrow> None | Some w \<Rightarrow> f w) else None) =
   (case List.find (\<lambda>w. b \<and> P w) ws of None \<Rightarrow> None | Some w \<Rightarrow> f w)"
  by (induction ws) auto

lemma match_at_tokens:
  assumes "plain a" and "\<forall>w \<in> set (words_of a). lower_word w" and "i \<le> length s"
  shows "match_at (Seq WordB (Seq (Group a) WordB)) s i =
     (case List.find (\<lambda>w. token_at s i w) (words_of a) of
        None \<Rightarrow> None
      | Some w \<Rightarrow> Some (i + length w, Some (i, i + length w)))"
proof -
  have "List.find (\<lambda>w. word_boundary s i \<and> lit_at w s i \<and> word_boundary s (i + length w)) (words_of a)
      = List.find (\<lambda>w. token_at s i w) (words_of a)"
    using assms(2,3) by (intro find_cong refl) (simp add: token_at_iff_match)
  then show ?thesis
    by (simp only: match_at_word_pattern [OF assms(1)] try_words_boundary find_guarded)
qed

lemma search_from_None:
  "(\<forall>j. i \<le> j \<and> j < i + n \<longrightarrow> match_at r s j = None) \<Longrightarrow> search_from r s n i = None"
proof (induction n arbitrary: i)
  case 0
  then show ?case by simp
next
  case (Suc n)
  from Suc.prems have here: "match_at r s i = None" by simp
  from Suc.prems have "\<forall>j. Suc i \<le> j \<and> j < Suc i + n \<longrightarrow> match_at r s j = None" by simp
  then have "search_from r s n (Suc i) = None" by (rule Suc.IH)
  with here show ?case by simp
qed

lemma search_from_Some:
  "i \<le> p \<Longrightarrow> p < i + n \<Longrightarrow> match_at r s p = Some (e, g) \<Longrightarrow>
   (\<forall>j. i \<le> j \<and> j < p \<longrightarrow> match_at r s j = None) \<Longrightarrow>
   search_from r s n i = Some (p, e, g)"
proof (induction n arbitrary: i)
  case 0
  then show ?case by simp
next
  case (Suc n)
  show ?case
  proof (cases "i = p")
    case True
    with Suc.prems show ?thesis by simp
  next
    case False
    with Suc.prems have here: "match_at r s i = None" and lt: "Suc i \<le> p" by simp_all
    from Suc.prems have "\<forall>j. Suc i \<le> j \<and> j < p \<longrightarrow> match_at r s j = None" by simp
    with lt Suc.prems have "search_from r s n (Suc i) = Some (p, e, g)"
      by (intro Suc.IH) simp_all
    with here show ?thesis by simp
  qed
qed

lemma token_at_bound: "token_at s i w \<Longrightarrow> i \<le> length s"
  by (simp add: token_at_def)

lemma word_pattern_search_none:
  assumes pl: "plain a" and lw: "\<forall>w \<in> set (words_of a). lower_word w"
    and none: "\<forall>i. \<forall>w \<in> set (words_of a). \<not> token_at s i w"
  shows "regex_search (Seq WordB (Seq (Group a) WordB)) s = None"
proof -
  have "match_at (Seq WordB (Seq (Group a) WordB)) s j = None" if "j < 0 + Suc (length s)" for j
  proof -
    from that have j: "j \<le> length s" by simp
    have "List.find (\<lambda>w. token_at s j w) (words_of a) = None"
      using none by (simp add: find_None_iff)
    then show ?thesis by (simp add: match_at_tokens [OF pl lw j])
  qed
  then show ?thesis
    unfolding regex_search_def by (intro search_from_None) blast
qed

lemma word_pattern_search_leftmost:
  assumes pl: "plain a" and lw: "\<forall>w \<in> set (words_of a). lower_word w"
    and w: "w \<in> set (words_of a)" and tok: "token_at s i w"
    and first: "\<forall>j<i. \<forall>v \<in> set (words_of a). \<not> token_at s j v"
  shows "regex_search (Seq WordB (Seq (Group a) WordB)) s
         = Some (i, i + length w, Some (i, i + length w))"
proof -
  let ?P = "Seq WordB (Seq (Group a) WordB)"
  from tok have i: "i \<le> length s" by (rule token_at_bound)
  have before: "\<forall>j. 0 \<le> j \<and> j < i \<longrightarrow> match_at ?P s j = None"
  proof (intro allI impI)
    fix j assume "0 \<le> j \<and> j < i"
    then have ji: "j < i" by simp
    with i have j: "j \<le> length s" by simp
    have "List.find (\<lambda>w. token_at s j w) (words_of a) = None"
      using first ji by (simp add: find_None_iff)
    then show "match_at ?P s j = None" by (simp add: match_at_tokens [OF pl lw j])
  qed
  obtain v where fv: "List.find (\<lambda>w. token_at s i w) (words_of a) = Some v"
    using w tok by (cases "List.find (\<lambda>w. token_at s i w) (words_of a)") (auto simp: find_None_iff)
  then have "token_at s i v" and "v \<in> set (words_of a)"
    by (auto simp: find_Some_iff)
  with lw w tok have "v = w" by (intro token_at_unique [of v w s i]) auto
  with fv have here: "match_at ?P s i = Some (i + length w, Some (i, i + length w))"
    by (simp add: match_at_tokens [OF pl lw i])
  show ?thesis
    unfolding regex_search_def
    using i by (intro search_from_Some [OF _ _ here before]) simp_all
qed

lemma group1_span:
  "group1 s (i, e, Some (i, i + n)) = Some (take n (drop i s))"
  by (simp add: group1_def)

section \<open>Level classification\<close>






lemma leftmost_token_exists:
  assumes "\<exists>i. \<exists>w \<in> set ws. token_at s i w"
  shows "\<exists>i. \<exists>w \<in> set ws. token_at s i w \<and> (\<forall>j<i. \<forall>v \<in> set ws. \<not> token_at s j v)"
proof -
  let ?Q = "\<lambda>i. \<exists>w \<in> set ws. token_at s i w"
  from assms obtain i0 where "?Q i0" by blast
  then have "?Q (LEAST i. ?Q i)" by (rule LeastI)
  moreover have "\<forall>j<(LEAST i. ?Q i). \<not> ?Q j"
    using not_less_Least by blast
  ultimately show ?thesis by blast
qed



section \<open>The scout's keyword check\<close>

lemma ERROR_GROUP_plain: "plain ERROR_GROUP"
  by (simp add: ERROR_GROUP_def)

lemma ERROR_GROUP_words:
  "words_of ERROR_GROUP =
     [''emerg'', ''alert'', ''critical'', ''crit'', ''error'', ''err'', ''failed'', ''failure'',
      ''fail'', ''panic'', ''oops'', ''oom'', ''segfault'', ''timeout'', ''refused'', ''denied'']"
  by (simp add: ERROR_GROUP_def)

lemma ERROR_GROUP_set: "set (words_of ERROR_GROUP) = set SCOUT_KEYWORDS \<union> {''fail''}"
  unfolding ERROR_GROUP_words SCOUT_KEYWORDS_def by auto

lemma ERROR_GROUP_lower: "\<forall>w \<in> set (words_of ERROR_GROUP). lower_word w"
  by (simp add: ERROR_GROUP_words lower_word_def)

lemma scout_matches_no_token:
  assumes "\<forall>i. \<forall>w \<in> set SCOUT_KEYWORDS \<union> {''fail''}. \<not> token_at line i w"
  shows "scout_matches line = Inr None"
proof -
  have "regex_search ERROR_RE line = None"
    unfolding ERROR_RE_def
    using assms ERROR_GROUP_lower
    by (intro word_pattern_search_none ERROR_GROUP_plain) (simp_all only: ERROR_GROUP_set)
  then show ?thesis by (simp add: scout_matches_def)
qed

lemma scout_matches_first_token:
  assumes "w \<in> set SCOUT_KEYWORDS \<union> {''fail''}" and "token_at line i w"
    and "\<forall>j<i. \<forall>v \<in> set SCOUT_KEYWORDS \<union> {''fail''}. \<not> token_at line j v"
  shows "scout_matches line = Inr (Some w)"
proof -
  have "regex_search ERROR_RE line = Some (i, i + length w, Some (i, i + length w))"
    unfolding ERROR_RE_def
    using assms ERROR_GROUP_lower
    by (intro word_pattern_search_leftmost ERROR_GROUP_plain) (simp_all only: ERROR_GROUP_set)
  moreover have "str_lower (take (length w) (drop i line)) = w"
    using assms(2) by (simp add: token_at_def)
  ultimately show ?thesis by (simp add: scout_matches_def group1_span)
qed

lemma scout_matches_outcome:
  "scout_matches line = Inr None
   \<or> (\<exists>i w. w \<in> set SCOUT_KEYWORDS \<union> {''fail''} \<and> token_at line i w
          \<and> scout_matches line = Inr (Some w))"
proof (cases "\<exists>i. \<exists>w \<in> set (words_of ERROR_GROUP). token_at line i w")
  case True
  then obtain i w where "w \<in> set (words_of ERROR_GROUP)" "token_at line i w"
    "\<forall>j<i. \<forall>v \<in> set (words_of ERROR_GROUP). \<not> token_at line j v"
    using leftmost_token_exists [of "words_of ERROR_GROUP" line] by blast
  then have "w \<in> set SCOUT_KEYWORDS \<union> {''fail''}" "token_at line i w"
    "scout_matches line = Inr (Some w)"
    using scout_matches_first_token [of w line i] by (simp_all only: ERROR_GROUP_set)
  then show ?thesis by blast
next
  case False
  then have "\<forall>i. \<forall>w \<in> set SCOUT_KEYWORDS \<union> {''fail''}. \<not> token_at line i w"
    by (simp only: ERROR_GROUP_set) blast
  then show ?thesis using scout_matches_no_token by blast
qed





section \<open>Source discovery\<close>

lemma discover_loop_step:
  "is_file en = Inr b \<Longrightarrow>
   discover_loop (en # rest) rs = discover_loop rest (if eligible en then rs @ [de_path en] else rs)"
  by (cases "probe en") (auto simp: eligible_def)

lemma discover_loop_no_raise:
  "\<forall>en \<in> set entries. is_file en \<noteq> Inl OSError \<Longrightarrow>
   discover_loop entries results = results @ map de_path (filter eligible entries)"
proof (induction entries arbitrary: results)
  case Nil
  then show ?case by simp
next
  case (Cons en rest)
  then have IH: "\<And>rs. discover_loop rest rs = rs @ map de_path (filter eligible rest)"
    by simp
  from Cons.prems obtain b where b: "is_file en = Inr b"
    by (cases "is_file en") (auto intro: os_error.exhaust)
  show ?case
    by (simp add: discover_loop_step [OF b] IH del: discover_loop.simps)
qed

lemma discover_loop_subset:
  "set (discover_loop entries results) \<subseteq> set results \<union> de_path ` {en \<in> set entries. eligible en}"
proof (induction entries arbitrary: results)
  case Nil
  then show ?case by simp
next
  case (Cons en rest)
  show ?case
  proof (cases "is_file en")
    case (Inl e)
    then show ?thesis by auto
  next
    case (Inr b)
    show ?thesis
      using Cons.IH [of "if eligible en then results @ [de_path en] else results"]
      by (auto simp: discover_loop_step [OF Inr] simp del: discover_loop.simps split: if_splits)
  qed
qed

text \<open>
  Claim C7.  When the directory cannot be read the result is empty.  Otherwise every
  path returned is the path of an entry of the directory that is a regular file, whose
  name is not in \<open>SKIP_NAMES\<close> and ends in none of \<open>SKIP_SUFFIXES\<close>, that is readable
  and whose prefix decodes as text.  When no \<open>is_file\<close> call raises, the result is
  exactly the paths of those entries, in directory order.
\<close>

theorem discover_log_files_only_eligible:
  "discover_log_files (Inl e) = []
   \<and> (\<forall>p \<in> set (discover_log_files (Inr entries)).
        \<exists>en \<in> set entries.
          de_path en = p
          \<and> is_file en = Inr True
          \<and> de_name en \<notin> SKIP_NAMES
          \<and> \<not> (\<exists>s \<in> SKIP_SUFFIXES. suffix s (de_name en))
          \<and> readable en
          \<and> probe en = ProbeOk)
   \<and> ((\<forall>en \<in> set entries. is_file en \<noteq> Inl OSError) \<longrightarrow>
        discover_log_files (Inr entries) = map de_path (filter eligible entries))"
proof (intro conjI)
  show "discover_log_files (Inl e) = []"
    by (simp add: discover_log_files_def)
  show "\<forall>p \<in> set (discover_log_files (Inr entries)).
        \<exists>en \<in> set entries.
          de_path en = p
          \<and> is_file en = Inr True
          \<and> de_name en \<notin> SKIP_NAMES
          \<and> \<not> (\<exists>s \<in> SKIP_SUFFIXES. suffix s (de_name en))
          \<and> readable en
          \<and> probe en = ProbeOk"
  proof
    fix p assume "p \<in> set (discover_log_files (Inr entries))"
    then have "p \<in> de_path ` {en \<in> set entries. eligible en}"
      using discover_loop_subset [of entries "[]"] by (auto simp: discover_log_files_def)
    then obtain en where "en \<in> set entries" "eligible en" "de_path en = p" by auto
    then show "\<exists>en \<in> set entries.
          de_path en = p
          \<and> is_file en = Inr True
          \<and> de_name en \<notin> SKIP_NAMES
          \<and> \<not> (\<exists>s \<in> SKIP_SUFFIXES. suffix s (de_name en))
          \<and> readable en
          \<and> probe en = ProbeOk"
      unfolding eligible_def by blast
  qed
  show "(\<forall>en \<in> set entries. is_file en \<noteq> Inl OSError) \<longrightarrow>
        discover_log_files (Inr entries) = map de_path (filter eligible entries)"
    using discover_loop_no_raise [of entries "[]"] by (simp add: discover_log_files_def)
qed

text \<open>
  A directory with a rotated file, a blocked name, a compressed file, a subdirectory
  and an unreadable file beside two logs: the two logs are returned.
\<close>

theorem discover_log_files_only_eligible_witness:
  "discover_log_files (Inr
     [\<lparr>de_name = ''syslog'', de_path = ''/var/log/syslog'', is_file = Inr True,
       readable = True, probe = ProbeOk\<rparr>,
      \<lparr>de_name = ''syslog.1'', de_path = ''/var/log/syslog.1'', is_file = Inr True,
       readable = True, probe = ProbeOk\<rparr>,
      \<lparr>de_name = ''btmp'', de_path = ''/var/log/btmp'', is_file = Inr True,
       readable = True, probe = ProbeUnicodeDecodeError\<rparr>,
      \<lparr>de_name = ''kern.log.gz'', de_path = ''/var/log/kern.log.gz'', is_file = Inr True,
       readable = True, probe = ProbeUnicodeDecodeError\<rparr>,
      \<lparr>de_name = ''journal'', de_path = ''/var/log/journal'', is_file = Inr False,
       readable = True, probe = ProbeOSError\<rparr>,
      \<lparr>de_name = ''private'', de_path = ''/var/log/private'', is_file = Inr True,
       readable = False, probe = ProbeOSError\<rparr>,
      \<lparr>de_name = ''auth.log'', de_path = ''/var/log/auth.log'', is_file = Inr True,
       readable = True, probe = ProbeOk\<rparr>])
   = [''/var/log/syslog'', ''/var/log/auth.log'']"
proof -
  let ?es = "[\<lparr>de_name = ''syslog'', de_path = ''/var/log/syslog'', is_file = Inr True,
       readable = True, probe = ProbeOk\<rparr>,
      \<lparr>de_name = ''syslog.1'', de_path = ''/var/log/syslog.1'', is_file = Inr True,
       readable = True, probe = ProbeOk\<rparr>,
      \<lparr>de_name = ''btmp'', de_path = ''/var/log/btmp'', is_file = Inr True,
       readable = True, probe = ProbeUnicodeDecodeError\<rparr>,
      \<lparr>de_name = ''kern.log.gz'', de_path = ''/var/log/kern.log.gz'', is_file = Inr True,
       readable = True, probe = ProbeUnicodeDecodeError\<rparr>,
      \<lparr>de_name = ''journal'', de_path = ''/var/log/journal'', is_file = Inr False,
       readable = True, probe = ProbeOSError\<rparr>,
      \<lparr>de_name = ''private'', de_path = ''/var/log/private'', is_file = Inr True,
       readable = False, probe = ProbeOSError\<rparr>,
      \<lparr>de_name = ''auth.log'', de_path = ''/var/log/auth.log'', is_file = Inr True,
       readable = True, probe = ProbeOk\<rparr>]"
  have h: "\<forall>en \<in> set ?es. is_file en \<noteq> Inl OSError" by simp
  have v: "map de_path (filter eligible ?es) = [''/var/log/syslog'', ''/var/log/auth.log'']"
    by code_simp
  from discover_log_files_only_eligible [of OSError ?es, THEN conjunct2, THEN conjunct2] h v
  show ?thesis by simp
qed


section \<open>Concurrent appends\<close>

lemma sum_list_map_update:
  "i < length xs \<Longrightarrow>
   sum_list (map f (xs[i := y])) + f (xs ! i) = sum_list (map f xs) + (f y :: nat)"
proof (induction xs arbitrary: i)
  case Nil
  then show ?case by simp
next
  case (Cons x xs)
  then show ?case by (cases i) auto
qed

lemma backlog_update:
  "i < length ws \<Longrightarrow>
   backlog (ws[i := w]) + length (emitted (unread (ws ! i))) = backlog ws + length (emitted (unread w))"
  unfolding backlog_def by (rule sum_list_map_update)

lemma scout_matches_never_raises: "scout_matches line \<noteq> Inl e"
  using scout_matches_outcome [of line] by auto

lemma handle_line_never_raises: "handle_line src line now hs \<noteq> Inl e"
  using scout_matches_never_raises [of line]
  by (auto simp: handle_line_def split: sum.splits option.splits)

lemma handle_line_length:
  "handle_line src line now hs = Inr hs' \<Longrightarrow>
   length hs' + length (emitted rest) = length hs + length (emitted (line # rest))"
  by (auto simp: handle_line_def record_hit_def split: sum.splits option.splits if_splits)

lemma handle_line_own:
  "handle_line src line now hs = Inr hs' \<Longrightarrow>
   hits_of src hs' @ emitted rest = hits_of src hs @ emitted (line # rest)"
  by (auto simp: handle_line_def record_hit_def hits_of_def split: sum.splits option.splits if_splits)

lemma handle_line_other:
  "handle_line src line now hs = Inr hs' \<Longrightarrow> src' \<noteq> src \<Longrightarrow> hits_of src' hs' = hits_of src' hs"
  by (auto simp: handle_line_def record_hit_def hits_of_def split: sum.splits option.splits if_splits)

lemma step_sources: "step s s' \<Longrightarrow> map w_source (watchers s') = map w_source (watchers s)"
  by (induction rule: step.induct) (simp_all add: map_update list_update_same_conv)

lemma step_count:
  "step s s' \<Longrightarrow> length (hits s') + backlog (watchers s') = length (hits s) + backlog (watchers s)"
proof (induction rule: step.induct)
  case (read_line i s line rest now hs)
  let ?w = "(watchers s ! i)\<lparr>unread := rest\<rparr>"
  have "backlog ((watchers s)[i := ?w]) + length (emitted (line # rest))
        = backlog (watchers s) + length (emitted rest)"
    using backlog_update [OF read_line(1), of ?w] read_line(2) by simp
  moreover have "length hs + length (emitted rest) = length (hits s) + length (emitted (line # rest))"
    using read_line(3) by (rule handle_line_length)
  ultimately show ?case by simp
next
  case (watcher_dies i s line rest now e)
  then show ?case using handle_line_never_raises by blast
qed

lemma step_order:
  assumes "step s s'" and "distinct (map w_source (watchers s))" and "j < length (watchers s)"
  shows "hits_of (w_source (watchers s ! j)) (hits s') @ emitted (unread (watchers s' ! j))
       = hits_of (w_source (watchers s ! j)) (hits s) @ emitted (unread (watchers s ! j))"
  using assms
proof (induction rule: step.induct)
  case (read_line i s line rest now hs)
  show ?case
  proof (cases "j = i")
    case True
    then show ?thesis
      using read_line(1,2) handle_line_own [OF read_line(3), of rest] by simp
  next
    case False
    have "(map w_source (watchers s) ! j = map w_source (watchers s) ! i) = (j = i)"
      using read_line(1,4,5) by (intro nth_eq_iff_index_eq) simp_all
    then have "w_source (watchers s ! j) \<noteq> w_source (watchers s ! i)"
      using read_line(1,5) False by simp
    then have "hits_of (w_source (watchers s ! j)) hs = hits_of (w_source (watchers s ! j)) (hits s)"
      using read_line(3) by (intro handle_line_other)
    then show ?thesis using False by simp
  qed
next
  case (watcher_dies i s line rest now e)
  then show ?case using handle_line_never_raises by blast
qed

lemma run_sources: "rtranclp step s s' \<Longrightarrow> map w_source (watchers s') = map w_source (watchers s)"
  by (induction rule: rtranclp_induct) (simp_all add: step_sources)

lemma run_count:
  "rtranclp step s s' \<Longrightarrow>
   length (hits s') + backlog (watchers s') = length (hits s) + backlog (watchers s)"
  by (induction rule: rtranclp_induct) (simp_all add: step_count)

lemma run_order:
  assumes "rtranclp step s s'" and "distinct (map w_source (watchers s))" and "j < length (watchers s)"
  shows "hits_of (w_source (watchers s ! j)) (hits s') @ emitted (unread (watchers s' ! j))
       = hits_of (w_source (watchers s ! j)) (hits s) @ emitted (unread (watchers s ! j))"
  using assms
proof (induction rule: rtranclp_induct)
  case base
  show ?case by simp
next
  case (step y z)
  have src: "map w_source (watchers y) = map w_source (watchers s)"
    using step(1) by (rule run_sources)
  then have len: "length (watchers y) = length (watchers s)"
    by (metis length_map)
  have d: "distinct (map w_source (watchers y))" using src step(4) by simp
  have j: "j < length (watchers y)" using len step(5) by simp
  have same: "w_source (watchers y ! j) = w_source (watchers s ! j)"
    using src j step(5) by (metis nth_map)
  from step_order [OF step(2) d j] step(3) [OF step(4) step(5)] same
  show ?case by simp
qed

lemma backlog_done: "\<forall>w \<in> set ws. unread w = [] \<Longrightarrow> backlog ws = 0"
  by (simp add: backlog_def)

lemma backlog_uniform:
  "\<forall>w \<in> set ws. length (emitted (unread w)) = m \<Longrightarrow> backlog ws = length ws * m"
  unfolding backlog_def by (induction ws) auto

text \<open>
  Claim C8.  Take any interleaving of the watchers from a state with no hits.  At every
  moment the hits recorded and the hits still to come add up to the hits the watchers
  had to emit.  Once every watcher has consumed its lines, and each of the
  \<open>length (watchers s0)\<close> watchers had \<open>m\<close> hits to emit, the list holds exactly
  \<open>length (watchers s0) * m\<close> hits.  For watchers of distinct sources, the hits of each
  source in the list are, in order, a prefix of what its watcher emits, and all of it
  at the end.
\<close>

theorem aggregator_keeps_every_hit_once:
  assumes "rtranclp step s0 s" and "hits s0 = []"
  shows "length (hits s) + backlog (watchers s) = backlog (watchers s0)
     \<and> ((\<forall>w \<in> set (watchers s). unread w = [])
          \<and> (\<forall>w \<in> set (watchers s0). length (emitted (unread w)) = m)
        \<longrightarrow> length (hits s) = length (watchers s0) * m)
     \<and> (distinct (map w_source (watchers s0)) \<longrightarrow>
          (\<forall>j < length (watchers s0).
             hits_of (w_source (watchers s0 ! j)) (hits s) @ emitted (unread (watchers s ! j))
               = emitted (unread (watchers s0 ! j))))
     \<and> (distinct (map w_source (watchers s0)) \<and> (\<forall>w \<in> set (watchers s). unread w = []) \<longrightarrow>
          (\<forall>j < length (watchers s0).
             hits_of (w_source (watchers s0 ! j)) (hits s) = emitted (unread (watchers s0 ! j))))"
proof -
  have count: "length (hits s) + backlog (watchers s) = backlog (watchers s0)"
    using run_count [OF assms(1)] assms(2) by simp
  have len: "length (watchers s) = length (watchers s0)"
    using run_sources [OF assms(1)] by (metis length_map)
  have total: "length (hits s) = length (watchers s0) * m"
    if "\<forall>w \<in> set (watchers s). unread w = []"
      and "\<forall>w \<in> set (watchers s0). length (emitted (unread w)) = m"
    using count backlog_done [OF that(1)] backlog_uniform [OF that(2)] by simp
  have order: "hits_of (w_source (watchers s0 ! j)) (hits s) @ emitted (unread (watchers s ! j))
               = emitted (unread (watchers s0 ! j))"
    if "distinct (map w_source (watchers s0))" and "j < length (watchers s0)" for j
    using run_order [OF assms(1) that] assms(2) by (simp add: hits_of_def)
  have final: "hits_of (w_source (watchers s0 ! j)) (hits s) = emitted (unread (watchers s0 ! j))"
    if "distinct (map w_source (watchers s0))" and "\<forall>w \<in> set (watchers s). unread w = []"
      and "j < length (watchers s0)" for j
  proof -
    have "watchers s ! j \<in> set (watchers s)" using that(3) len by simp
    then have "unread (watchers s ! j) = []" using that(2) by blast
    with order [OF that(1) that(3)] show ?thesis by simp
  qed
  from count total order final show ?thesis by blast
qed

text \<open>
  Two watchers with two noteworthy lines each, interleaved as first, second, second,
  first: four hits.
\<close>

theorem aggregator_keeps_every_hit_once_witness:
  "rtranclp step
     \<lparr>hits = [],
      watchers = [\<lparr>w_source = ''/var/log/a'', unread = [''disk error'' @ [CHR 0x0A], ''oom'']\<rparr>,
                  \<lparr>w_source = ''journalctl'', unread = [''Failed unit'', ''refused'']\<rparr>]\<rparr>
     \<lparr>hits = [\<lparr>hit_source = ''/var/log/a'', hit_line = ''disk error'', keyword = ''error'',
                hit_timestamp = 1\<rparr>,
              \<lparr>hit_source = ''journalctl'', hit_line = ''Failed unit'', keyword = ''failed'',
                hit_timestamp = 2\<rparr>,
              \<lparr>hit_source = ''journalctl'', hit_line = ''refused'', keyword = ''refused'',
                hit_timestamp = 3\<rparr>,
              \<lparr>hit_source = ''/var/log/a'', hit_line = ''oom'', keyword = ''oom'',
                hit_timestamp = 4\<rparr>],
      watchers = [\<lparr>w_source = ''/var/log/a'', unread = []\<rparr>,
                  \<lparr>w_source = ''journalctl'', unread = []\<rparr>]\<rparr>
   \<and> length (hits
     \<lparr>hits = [\<lparr>hit_source = ''/var/log/a'', hit_line = ''disk error'', keyword = ''error'',
                hit_timestamp = 1\<rparr>,
              \<lparr>hit_source = ''journalctl'', hit_line = ''Failed unit'', keyword = ''failed'',
                hit_timestamp = 2\<rparr>,
              \<lparr>hit_source = ''journalctl'', hit_line = ''refused'', keyword = ''refused'',
                hit_timestamp = 3\<rparr>,
              \<lparr>hit_source = ''/var/log/a'', hit_line = ''oom'', keyword = ''oom'',
                hit_timestamp = 4\<rparr>],
      watchers = [\<lparr>w_source = ''/var/log/a'', unread = []\<rparr>,
                  \<lparr>w_source = ''journalctl'', unread = []\<rparr>]\<rparr>) = 2 * 2"
proof -
  let ?a = "''/var/log/a''"
  let ?j = "''journalctl''"
  let ?l1 = "''disk error'' @ [CHR 0x0A]"
  let ?h1 = "\<lparr>hit_source = ?a, hit_line = ''disk error'', keyword = ''error'', hit_timestamp = 1\<rparr>"
  let ?h2 = "\<lparr>hit_source = ?j, hit_line = ''Failed unit'', keyword = ''failed'', hit_timestamp = 2\<rparr>"
  let ?h3 = "\<lparr>hit_source = ?j, hit_line = ''refused'', keyword = ''refused'', hit_timestamp = 3\<rparr>"
  let ?h4 = "\<lparr>hit_source = ?a, hit_line = ''oom'', keyword = ''oom'', hit_timestamp = 4\<rparr>"
  let ?s0 = "\<lparr>hits = [],
      watchers = [\<lparr>w_source = ?a, unread = [?l1, ''oom'']\<rparr>,
                  \<lparr>w_source = ?j, unread = [''Failed unit'', ''refused'']\<rparr>]\<rparr>"
  let ?s1 = "\<lparr>hits = [?h1],
      watchers = [\<lparr>w_source = ?a, unread = [''oom'']\<rparr>,
                  \<lparr>w_source = ?j, unread = [''Failed unit'', ''refused'']\<rparr>]\<rparr>"
  let ?s2 = "\<lparr>hits = [?h1, ?h2],
      watchers = [\<lparr>w_source = ?a, unread = [''oom'']\<rparr>,
                  \<lparr>w_source = ?j, unread = [''refused'']\<rparr>]\<rparr>"
  let ?s3 = "\<lparr>hits = [?h1, ?h2, ?h3],
      watchers = [\<lparr>w_source = ?a, unread = [''oom'']\<rparr>,
                  \<lparr>w_source = ?j, unread = []\<rparr>]\<rparr>"
  let ?s4 = "\<lparr>hits = [?h1, ?h2, ?h3, ?h4],
      watchers = [\<lparr>w_source = ?a, unread = []\<rparr>,
                  \<lparr>w_source = ?j, unread = []\<rparr>]\<rparr>"
  have e1: "handle_line ?a ?l1 1 [] = Inr [?h1]" by code_simp
  have e2: "handle_line ?j ''Failed unit'' 2 [?h1] = Inr [?h1, ?h2]" by code_simp
  have e3: "handle_line ?j ''refused'' 3 [?h1, ?h2] = Inr [?h1, ?h2, ?h3]" by code_simp
  have e4: "handle_line ?a ''oom'' 4 [?h1, ?h2, ?h3] = Inr [?h1, ?h2, ?h3, ?h4]" by code_simp
  have st1: "step ?s0 ?s1"
    using step.read_line [of 0 ?s0 ?l1 "[''oom'']" 1 "[?h1]"] e1 by simp
  have st2: "step ?s1 ?s2"
    using step.read_line [of 1 ?s1 "''Failed unit''" "[''refused'']" 2 "[?h1, ?h2]"] e2 by simp
  have st3: "step ?s2 ?s3"
    using step.read_line [of 1 ?s2 "''refused''" "[]" 3 "[?h1, ?h2, ?h3]"] e3 by simp
  have st4: "step ?s3 ?s4"
    using step.read_line [of 0 ?s3 "''oom''" "[]" 4 "[?h1, ?h2, ?h3, ?h4]"] e4 by simp
  have run: "rtranclp step ?s0 ?s4"
    using st1 st2 st3 st4 by (meson rtranclp.rtrancl_into_rtrancl rtranclp.rtrancl_refl)
  have fresh: "hits ?s0 = []" by simp
  have fin: "\<forall>w \<in> set (watchers ?s4). unread w = []" by simp
  have ea: "length (emitted [?l1, ''oom'']) = 2" by code_simp
  have ej: "length (emitted [''Failed unit'', ''refused'']) = 2" by code_simp
  have uni: "\<forall>w \<in> set (watchers ?s0). length (emitted (unread w)) = 2"
    using ea ej by simp
  have "length (hits ?s4) = length (watchers ?s0) * 2"
    using aggregator_keeps_every_hit_once [OF run fresh, of 2, THEN conjunct2, THEN conjunct1]
      fin uni by blast
  then have "length (hits ?s4) = 2 * 2" by simp
  with run show ?thesis by blast
qed


section \<open>The two keyword scans\<close>

text \<open>
  Claim C10.  The scout's keyword scan and the level classifier disagree on the line
  \<open>ERROR\<close>: the scan reports the keyword \<open>error\<close>, the classifier finds no level
  word and answers the default \<open>info\<close>.
\<close>

theorem scout_and_level_scans_disagree:
  "scout_matches ''ERROR'' = Inr (Some ''error'')
   \<and> parse_level ''ERROR'' = Inr ''info''
   \<and> (\<exists>line k. scout_matches line = Inr (Some k) \<and> parse_level line = Inr ''info'')"
proof -
  have a: "scout_matches ''ERROR'' = Inr (Some ''error'')" by code_simp
  have b: "parse_level ''ERROR'' = Inr ''info''" by code_simp
  from a b show ?thesis by blast
qed

end
